theory Spec2Isabelle
  imports Complex_Main "HOL-Library.AList" "HOL-Library.Multiset"
begin

section \<open>The collaborators of the crawler\<close>

text \<open>
  \<^verbatim>\<open>sitemap-crawler.py\<close> talks to the outside world through \<^verbatim>\<open>requests.get\<close>,
  \<^verbatim>\<open>gzip.GzipFile\<close>, \<^verbatim>\<open>ET.fromstring\<close>, \<^verbatim>\<open>BeautifulSoup\<close>, \<^verbatim>\<open>random.uniform\<close>,
  \<^verbatim>\<open>time.sleep\<close>, \<^verbatim>\<open>ThreadPoolExecutor\<close> and the logger. None of them is code of the
  repository, so the embedding takes what they return, and whether they raise, as
  parameters (the record \<open>env\<close>) and records what the crawler asks of them as a list of
  events. Byte strings and text are both \<open>string\<close>.

  Two things are fixed for a run:
  \<^item> the web is static: the same request gets the same reply;
  \<^item> the order in which Python iterates over a \<^verbatim>\<open>set\<close> of strings is not fixed by the
    language; it is given by the key \<open>set_order\<close>, so every order can be chosen.
\<close>

type_synonym headers = "(string \<times> string) list"

text \<open>
  The exceptions, tagged with the place that raises them: \<open>Unpack_ValueError\<close> is the
  \<^verbatim>\<open>ValueError\<close> of unpacking \<^verbatim>\<open>[]\<close> into two names, \<open>Sleep_error\<close> what \<^verbatim>\<open>time.sleep\<close>
  raises, \<open>Pool_ValueError\<close> the \<^verbatim>\<open>ValueError\<close> of a pool without workers.
\<close>

datatype py_exception =
    RequestException string
  | HTTPError nat
  | BadGzipFile
  | ParseError
  | Unpack_ValueError
  | Sleep_error string
  | Pool_ValueError

datatype http_reply =
    Raises py_exception
  | Response (status_code: nat) (reply_headers: headers) (body: string)

datatype xml = Element (tag: string) (elem_text: "string option") (children: "xml list")

text \<open>A Python \<^verbatim>\<open>float\<close>, as \<^verbatim>\<open>--delay\<close> accepts it.\<close>

datatype py_float = Finite real | NaN | Pos_infinity | Neg_infinity

definition float_add :: "py_float \<Rightarrow> real \<Rightarrow> py_float" where
  "float_add x r = (case x of Finite d \<Rightarrow> Finite (d + r) | _ \<Rightarrow> x)"

record env =
  requests_get :: "string \<Rightarrow> headers \<Rightarrow> int \<Rightarrow> http_reply"
  gunzip :: "string \<Rightarrow> string option"
  fromstring :: "string \<Rightarrow> xml option"
  soup_title :: "string \<Rightarrow> string option option"
  random_uniform :: "string \<Rightarrow> string \<Rightarrow> real"
  time_sleep :: "py_float \<Rightarrow> string option"
  set_order :: "string \<Rightarrow> nat"

text \<open>
  \<open>requests_get url headers timeout\<close> is the reply to the request. \<open>gunzip\<close> and
  \<open>fromstring\<close> return \<open>None\<close> where the library raises. \<open>soup_title\<close> is \<^verbatim>\<open>soup.title\<close>
  followed by \<^verbatim>\<open>.string\<close>: \<open>None\<close> when the page has no title element, \<open>Some None\<close> when
  it has one whose \<^verbatim>\<open>.string\<close> is \<^verbatim>\<open>None\<close>. \<open>random_uniform url language\<close> is the value
  \<^verbatim>\<open>random.uniform(0, 1)\<close> returns during the visit of that pair. \<open>time_sleep d\<close> is
  \<open>None\<close> when \<^verbatim>\<open>time.sleep(d)\<close> returns and the exception it raises otherwise.
\<close>

text \<open>
  What CPython's \<^verbatim>\<open>time.sleep\<close> does with the durations it refuses: a negative one and
  \<^verbatim>\<open>nan\<close> raise \<^verbatim>\<open>ValueError\<close>, an infinite one \<^verbatim>\<open>OverflowError\<close>.
\<close>

definition cpython_sleep :: "py_float \<Rightarrow> string option" where
  "cpython_sleep d =
     (case d of
        Finite x \<Rightarrow> if x < 0 then Some ''ValueError: sleep length must be non-negative'' else None
      | NaN \<Rightarrow> Some ''ValueError: Invalid value NaN (not a number)''
      | Pos_infinity \<Rightarrow> Some ''OverflowError: timestamp too large to convert to C _PyTime_t''
      | Neg_infinity \<Rightarrow> Some ''OverflowError: timestamp too large to convert to C _PyTime_t'')"

record config =
  sitemap_url :: string
  delay :: py_float
  timeout :: int
  max_workers :: int

datatype level = Debug | Info | Warning | Error

datatype message =
    Failed_to_fetch string py_exception
  | Failed_to_parse py_exception
  | Processing_sitemap string
  | Found_index nat
  | Found_urls nat string
  | Found_unique nat
  | Already_visited string string
  | Visiting string string
  | Successfully_visited string string
  | Page_title string "string option"
  | Failed_to_visit string string nat
  | Error_visiting string string py_exception
  | Completed_processing string string
  | No_urls_found
  | Starting_crawl nat nat nat
  | Crawl_completed
  | Summary_language string nat
  | Summary_total nat

text \<open>
  An event is a request sent, a sleep that returned, or a log line.
\<close>

datatype event =
    Http_get string headers int
  | Sleep py_float
  | Log level message

section \<open>Constants of the module and of the constructor\<close>

definition LANGUAGES :: "(string \<times> string) list" where
  "LANGUAGES =
     [(''French'', ''fr,fr-FR;q=0.9''),
      (''German'', ''de,de-DE;q=0.9''),
      (''Dutch'', ''nl,nl-NL;q=0.9''),
      (''Polish'', ''pl,pl-PL;q=0.9''),
      (''Swedish'', ''sv,sv-SE;q=0.9''),
      (''Finnish'', ''fi,fi-FI;q=0.9'')]"

definition user_agent :: string where
  "user_agent = ''Mozilla/5.0 (Windows NT 10.0; Win64; x64) AppleWebKit/537.36 (KHTML, like Gecko) Chrome/99.0.9999.99 Safari/537.36''"

definition accept :: string where
  "accept = ''text/html,application/xhtml+xml,application/xml;q=0.9,image/webp,*/*;q=0.8''"

definition xmlns_decl :: string where
  "xmlns_decl = ''xmlns=\"http://www.sitemaps.org/schemas/sitemap/0.9\"''"

section \<open>Python primitives\<close>

text \<open>\<^verbatim>\<open>not content\<close> for a value that is \<^verbatim>\<open>None\<close> or a byte string.\<close>

definition truthy :: "string option \<Rightarrow> bool" where
  "truthy content = (case content of None \<Rightarrow> False | Some c \<Rightarrow> c \<noteq> [])"

definition endswith :: "string \<Rightarrow> string \<Rightarrow> bool" where
  "endswith s suffix =
     (length suffix \<le> length s \<and> drop (length s - length suffix) s = suffix)"

text \<open>
  \<^verbatim>\<open>bytes.replace(old, new)\<close>: every occurrence of \<open>old\<close>, found from the left and
  without overlap, becomes \<open>new\<close>; an empty \<open>old\<close> matches before every byte and at the end.
\<close>

fun replace :: "string \<Rightarrow> string \<Rightarrow> string \<Rightarrow> string" where
  "replace old new [] = (if old = [] then new else [])"
| "replace old new (c # cs) =
     (if old = [] then new @ c # replace old new cs
      else if take (length old) (c # cs) = old
        then new @ replace old new (drop (length old - 1) cs)
        else c # replace old new cs)"

text \<open>\<^verbatim>\<open>list(set(xs))\<close>: the distinct elements of \<open>xs\<close>, in the set's iteration order.\<close>

definition list_of_set :: "env \<Rightarrow> string list \<Rightarrow> string list" where
  "list_of_set E xs = sort_key (set_order E) (remdups xs)"

text \<open>
  \<^verbatim>\<open>response.headers.get(name)\<close>: the headers of a reply are looked up without regard to
  the case of the name, and the values of a header sent several times are joined by a
  comma and a space.
\<close>

definition ascii_lower :: "char \<Rightarrow> char" where
  "ascii_lower c =
     (if 65 \<le> (of_char c :: nat) \<and> (of_char c :: nat) \<le> 90
      then char_of (of_char c + 32 :: nat) else c)"

fun join_values :: "string list \<Rightarrow> string" where
  "join_values [] = []"
| "join_values [v] = v"
| "join_values (v # w # ws) = v @ '', '' @ join_values (w # ws)"

definition headers_get :: "headers \<Rightarrow> string \<Rightarrow> string option" where
  "headers_get hs name =
     (case filter (\<lambda>h. map ascii_lower (fst h) = map ascii_lower name) hs of
        [] \<Rightarrow> None
      | found \<Rightarrow> Some (join_values (map snd found)))"

text \<open>
  ElementTree: \<^verbatim>\<open>root.findall('.//t')\<close> is every descendant of \<open>root\<close> with tag \<open>t\<close> in
  document order (the root itself is not among them); \<^verbatim>\<open>e.find('t')\<close> is the first child
  of \<open>e\<close> with tag \<open>t\<close>.
\<close>

fun descendants :: "xml \<Rightarrow> xml list" where
  "descendants (Element t x cs) = concat (map (\<lambda>c. c # descendants c) cs)"

definition findall :: "xml \<Rightarrow> string \<Rightarrow> xml list" where
  "findall doc t = filter (\<lambda>e. tag e = t) (descendants doc)"

definition find_child :: "xml \<Rightarrow> string \<Rightarrow> xml option" where
  "find_child e t = List.find (\<lambda>c. tag c = t) (children e)"

section \<open>fetch\_url\<close>

definition fetch_headers :: headers where
  "fetch_headers = [(''User-Agent'', user_agent), (''Accept'', accept)]"

text \<open>\<^verbatim>\<open>response.raise_for_status()\<close> raises for the 4xx and 5xx codes.\<close>

definition raise_for_status :: "nat \<Rightarrow> py_exception option" where
  "raise_for_status code = (if 400 \<le> code \<and> code < 600 then Some (HTTPError code) else None)"

text \<open>The body of the \<^verbatim>\<open>try\<close> block of \<^verbatim>\<open>fetch_url\<close>: \<open>Inl\<close> is the exception raised in it.\<close>

definition fetch_try :: "env \<Rightarrow> config \<Rightarrow> string \<Rightarrow> py_exception + string" where
  "fetch_try E C url =
     (case requests_get E url fetch_headers (timeout C) of
        Raises e \<Rightarrow> Inl e
      | Response code hs content \<Rightarrow>
          (case raise_for_status code of
             Some e \<Rightarrow> Inl e
           | None \<Rightarrow>
               if headers_get hs ''Content-Encoding'' = Some ''gzip'' \<or> endswith url ''.gz''
               then (case gunzip E content of None \<Rightarrow> Inl BadGzipFile | Some plain \<Rightarrow> Inr plain)
               else Inr content))"

definition fetch_url :: "env \<Rightarrow> config \<Rightarrow> string \<Rightarrow> string option \<times> event list" where
  "fetch_url E C url =
     (case fetch_try E C url of
        Inr content \<Rightarrow> (Some content, [Http_get url fetch_headers (timeout C)])
      | Inl e \<Rightarrow>
          (None, [Http_get url fetch_headers (timeout C), Log Error (Failed_to_fetch url e)]))"

section \<open>parse\_sitemap\<close>

text \<open>
  \<^verbatim>\<open>parse_sitemap\<close> returns the bare list \<^verbatim>\<open>[]\<close> on one path and a pair on the others;
  the two shapes are the two constructors.
\<close>

datatype parse_result = Empty_list | Tuple "string list" bool

text \<open>The two \<^verbatim>\<open>for\<close> loops that append \<^verbatim>\<open>loc.text\<close> of each entry having one.\<close>

fun collect_locs :: "xml list \<Rightarrow> string list" where
  "collect_locs [] = []"
| "collect_locs (entry # entries) =
     (case find_child entry ''loc'' of
        None \<Rightarrow> collect_locs entries
      | Some loc \<Rightarrow>
          (case elem_text loc of
             None \<Rightarrow> collect_locs entries
           | Some t \<Rightarrow> if t \<noteq> [] then t # collect_locs entries else collect_locs entries))"

definition parse_sitemap :: "env \<Rightarrow> string option \<Rightarrow> parse_result \<times> event list" where
  "parse_sitemap E content =
     (case content of
        None \<Rightarrow> (Empty_list, [])
      | Some c \<Rightarrow>
          if c = [] then (Empty_list, [])
          else (case fromstring E (replace xmlns_decl [] c) of
                  None \<Rightarrow> (Tuple [] False, [Log Error (Failed_to_parse ParseError)])
                | Some doc \<Rightarrow>
                    if tag doc = ''sitemapindex''
                    then (Tuple (collect_locs (findall doc ''sitemap'')) True, [])
                    else (Tuple (collect_locs (findall doc ''url'')) False, [])))"

section \<open>get\_urls\_from\_sitemap\<close>

text \<open>
  The \<^verbatim>\<open>while\<close> loop. It need not end (a sitemap index may list itself), so the loop is
  a partial function: \<open>None\<close> is a run that never leaves the loop, \<open>Some (Inl e)\<close> a run
  in which the exception \<open>e\<close> leaves it, \<open>Some (Inr (all_page_urls, trace))\<close> a run that
  drains the queue. Two statements of the body are outside every \<^verbatim>\<open>try\<close>: the unpacking
  of the result of \<^verbatim>\<open>parse_sitemap\<close>, which raises on \<^verbatim>\<open>[]\<close>, and \<^verbatim>\<open>time.sleep(self.delay)\<close>
  at the end of the body, which raises when the delay is refused.
\<close>

partial_function (option) resolve_loop ::
  "env \<Rightarrow> config \<Rightarrow> string list \<Rightarrow> string list \<Rightarrow> event list
     \<Rightarrow> (py_exception + string list \<times> event list) option" where
  "resolve_loop E C urls_to_process all_page_urls tr =
     (case urls_to_process of
        [] \<Rightarrow> Some (Inr (all_page_urls, tr))
      | url # rest \<Rightarrow>
          (case fetch_url E C url of
             (content, fetched) \<Rightarrow>
               if \<not> truthy content
               then resolve_loop E C rest all_page_urls
                      (tr @ Log Info (Processing_sitemap url) # fetched)
               else
                 (case parse_sitemap E content of
                    (Empty_list, parsed) \<Rightarrow> Some (Inl Unpack_ValueError)
                  | (Tuple urls is_index, parsed) \<Rightarrow>
                      (case time_sleep E (delay C) of
                         Some raised \<Rightarrow> Some (Inl (Sleep_error raised))
                       | None \<Rightarrow>
                           if is_index
                           then resolve_loop E C (rest @ urls) all_page_urls
                                  (tr @ Log Info (Processing_sitemap url) # fetched @ parsed
                                     @ [Log Info (Found_index (length urls)), Sleep (delay C)])
                           else resolve_loop E C rest (all_page_urls @ urls)
                                  (tr @ Log Info (Processing_sitemap url) # fetched @ parsed
                                     @ [Log Info (Found_urls (length urls) url),
                                        Sleep (delay C)])))))"

definition get_urls_from_sitemap ::
  "env \<Rightarrow> config \<Rightarrow> (py_exception + string list \<times> event list) option" where
  "get_urls_from_sitemap E C =
     (case resolve_loop E C [sitemap_url C] [] [] of
        None \<Rightarrow> None
      | Some (Inl e) \<Rightarrow> Some (Inl e)
      | Some (Inr (all_page_urls, tr)) \<Rightarrow>
          (let unique_urls = list_of_set E all_page_urls
           in Some (Inr (unique_urls, tr @ [Log Info (Found_unique (length unique_urls))]))))"

section \<open>visit\_url\<close>

text \<open>
  The object state the visits share: \<^verbatim>\<open>self.visited_urls\<close>, a dictionary from language
  name to a set of URLs (an association list, since the summary reads it in insertion
  order), and the events so far.
\<close>

record crawler =
  visited_urls :: "(string \<times> string set) list"
  trace :: "event list"

definition visit_headers :: "string \<Rightarrow> headers" where
  "visit_headers language_header =
     [(''User-Agent'', user_agent), (''Accept-Language'', language_header), (''Accept'', accept)]"

text \<open>
  The \<^verbatim>\<open>try\<close> block of \<^verbatim>\<open>visit_url\<close>: the events it produces and the exception that
  leaves it, if any. The sleep after a successful visit is inside the block.
\<close>

definition visit_try ::
  "env \<Rightarrow> config \<Rightarrow> string \<Rightarrow> string \<Rightarrow> string \<Rightarrow> event list \<times> py_exception option" where
  "visit_try E C url language_name language_header =
     (case requests_get E url (visit_headers language_header) (timeout C) of
        Raises e \<Rightarrow>
          ([Log Info (Visiting url language_name),
            Http_get url (visit_headers language_header) (timeout C)], Some e)
      | Response code hs html \<Rightarrow>
          if code = 200
          then
            (case time_sleep E (float_add (delay C) (random_uniform E url language_name)) of
               None \<Rightarrow>
                 ([Log Info (Visiting url language_name),
                   Http_get url (visit_headers language_header) (timeout C),
                   Log Info (Successfully_visited url language_name),
                   Log Info (Page_title language_name
                     (case soup_title E html of None \<Rightarrow> Some ''No title'' | Some title \<Rightarrow> title)),
                   Sleep (float_add (delay C) (random_uniform E url language_name))], None)
             | Some raised \<Rightarrow>
                 ([Log Info (Visiting url language_name),
                   Http_get url (visit_headers language_header) (timeout C),
                   Log Info (Successfully_visited url language_name),
                   Log Info (Page_title language_name
                     (case soup_title E html of None \<Rightarrow> Some ''No title'' | Some title \<Rightarrow> title))],
                  Some (Sleep_error raised)))
          else ([Log Info (Visiting url language_name),
                 Http_get url (visit_headers language_header) (timeout C),
                 Log Warning (Failed_to_visit url language_name code)], None))"

definition visit_url ::
  "env \<Rightarrow> config \<Rightarrow> crawler \<Rightarrow> string \<Rightarrow> string \<Rightarrow> string \<Rightarrow> crawler" where
  "visit_url E C s url language_name language_header =
     (case (case map_of (visited_urls s) language_name of
              None \<Rightarrow> (visited_urls s @ [(language_name, {})], {})
            | Some seen_urls \<Rightarrow> (visited_urls s, seen_urls)) of
        (visited, seen_urls) \<Rightarrow>
          if url \<in> seen_urls
          then s\<lparr>visited_urls := visited,
                 trace := trace s @ [Log Debug (Already_visited url language_name)]\<rparr>
          else
            (case visit_try E C url language_name language_header of
               (events, raised) \<Rightarrow>
                 s\<lparr>visited_urls := AList.update language_name (insert url seen_urls) visited,
                   trace := trace s @ events @
                     (case raised of
                        None \<Rightarrow> []
                      | Some e \<Rightarrow> [Log Error (Error_visiting url language_name e)])\<rparr>))"

section \<open>process\_url\_with\_all\_languages\<close>

text \<open>One iteration of the \<^verbatim>\<open>for\<close> loop over \<^verbatim>\<open>LANGUAGES.items()\<close>, and the loop.\<close>

definition language_step ::
  "env \<Rightarrow> config \<Rightarrow> string \<Rightarrow> crawler \<Rightarrow> string \<times> string \<Rightarrow> crawler" where
  "language_step E C url s language =
     (case language of
        (language_name, language_header) \<Rightarrow>
          (let s' = visit_url E C s url language_name language_header
           in s'\<lparr>trace := trace s' @ [Log Info (Completed_processing url language_name)]\<rparr>))"

definition process_url_with_all_languages ::
  "env \<Rightarrow> config \<Rightarrow> crawler \<Rightarrow> string \<Rightarrow> crawler" where
  "process_url_with_all_languages E C s url = foldl (language_step E C url) s LANGUAGES"

section \<open>The thread pool\<close>

text \<open>
  \<^verbatim>\<open>executor.map(self.process_url_with_all_languages, urls)\<close> inside the \<^verbatim>\<open>with\<close> block
  runs one task per URL and waits for all of them. A task is a URL with the languages
  its loop has still to go through. The pool starts the tasks in the order of the list
  and runs at most \<^verbatim>\<open>max_workers\<close> of them at a time, so the tasks that can advance are
  the first \<^verbatim>\<open>max_workers\<close> unfinished ones. The threads are interleaved by a scheduler
  the program does not control: \<open>sched\<close> lists its choices, each choice naming the task
  that advances by one iteration of its loop (when the list runs out, the oldest
  unfinished task advances). One iteration is taken as one atomic step. With
  \<open>sched = []\<close> the URLs are processed one after the other.
\<close>

type_synonym task = "string \<times> (string \<times> string) list"

definition remaining_work :: "task list \<Rightarrow> nat" where
  "remaining_work tasks = sum_list (map (\<lambda>t. Suc (length (snd t))) tasks)"

lemma remaining_work_append:
  "remaining_work (xs @ ys) = remaining_work xs + remaining_work ys"
  by (simp add: remaining_work_def)

lemma remaining_work_Cons:
  "remaining_work (t # ts) = Suc (length (snd t)) + remaining_work ts"
  by (simp add: remaining_work_def)

lemma remaining_work_split:
  assumes "i < length tasks"
  shows "remaining_work tasks =
    remaining_work (take i tasks) + Suc (length (snd (tasks ! i)))
      + remaining_work (drop (Suc i) tasks)"
proof -
  have "remaining_work tasks = remaining_work (take i tasks @ tasks ! i # drop (Suc i) tasks)"
    by (rule arg_cong [OF id_take_nth_drop [OF assms]])
  then show ?thesis
    by (simp only: remaining_work_append remaining_work_Cons add.assoc)
qed

lemma remaining_work_drop_task:
  assumes "i < length tasks"
  shows "remaining_work (take i tasks @ drop (Suc i) tasks) < remaining_work tasks"
  using remaining_work_split [OF assms]
  by (simp add: remaining_work_append)

lemma remaining_work_advance_task:
  assumes "i < length tasks" and "tasks ! i = (url, l # ls)"
  shows "remaining_work (tasks[i := (url, ls)]) < remaining_work tasks"
proof -
  have "remaining_work (tasks[i := (url, ls)]) =
      remaining_work (take i tasks @ (url, ls) # drop (Suc i) tasks)"
    by (rule arg_cong [OF upd_conv_take_nth_drop [OF assms(1)]])
  then have "remaining_work (tasks[i := (url, ls)]) =
      remaining_work (take i tasks) + Suc (length ls) + remaining_work (drop (Suc i) tasks)"
    by (simp only: remaining_work_append remaining_work_Cons add.assoc snd_conv)
  with remaining_work_split [OF assms(1)] assms(2) show ?thesis
    by simp
qed

text \<open>The number of tasks that can advance, and the scheduler's choice among them.\<close>

definition active :: "config \<Rightarrow> task list \<Rightarrow> nat" where
  "active C tasks = min (nat (max_workers C)) (length tasks)"

definition pick :: "nat list \<Rightarrow> nat \<Rightarrow> nat" where
  "pick sched n = (case sched of [] \<Rightarrow> 0 | c # cs \<Rightarrow> c mod n)"

lemma pick_less: "0 < n \<Longrightarrow> pick sched n < n"
  by (simp add: pick_def split: list.splits)

lemma pick_active: "active C tasks \<noteq> 0 \<Longrightarrow> pick sched (active C tasks) < length tasks"
  using pick_less [of "active C tasks" sched] by (simp add: active_def)

function executor_map ::
  "env \<Rightarrow> config \<Rightarrow> nat list \<Rightarrow> task list \<Rightarrow> crawler \<Rightarrow> crawler" where
  "executor_map E C sched tasks s =
     (if active C tasks = 0 then s
      else
        (case tasks ! pick sched (active C tasks) of
           (url, []) \<Rightarrow>
             executor_map E C (tl sched)
               (take (pick sched (active C tasks)) tasks
                  @ drop (Suc (pick sched (active C tasks))) tasks) s
         | (url, language # languages) \<Rightarrow>
             executor_map E C (tl sched)
               (tasks[pick sched (active C tasks) := (url, languages)])
               (language_step E C url s language)))"
  by pat_completeness auto
termination
proof (relation "measure (\<lambda>(E, C, sched, tasks, s). remaining_work tasks)")
  show "wf (measure (\<lambda>(E, C, sched, tasks, s). remaining_work tasks))"
    by simp
next
  fix E :: env and C :: config and sched :: "nat list" and tasks :: "task list"
    and s :: crawler and x1 :: string and x2 :: "(string \<times> string) list"
  assume "active C tasks \<noteq> 0"
  then have "pick sched (active C tasks) < length tasks"
    by (rule pick_active)
  then show "((E, C, tl sched,
       take (pick sched (active C tasks)) tasks @ drop (Suc (pick sched (active C tasks))) tasks,
       s), E, C, sched, tasks, s)
      \<in> measure (\<lambda>(E, C, sched, tasks, s). remaining_work tasks)"
    by (simp add: remaining_work_drop_task)
next
  fix E :: env and C :: config and sched :: "nat list" and tasks :: "task list"
    and s :: crawler and x1 :: string and x2 :: "(string \<times> string) list"
    and x21 :: "string \<times> string" and x22 :: "(string \<times> string) list"
  assume "active C tasks \<noteq> 0" and "(x1, x2) = tasks ! pick sched (active C tasks)"
    and "x2 = x21 # x22"
  then have "pick sched (active C tasks) < length tasks"
    and "tasks ! pick sched (active C tasks) = (x1, x21 # x22)"
    by (simp_all add: pick_active)
  then show "((E, C, tl sched, tasks[pick sched (active C tasks) := (x1, x22)],
       language_step E C x1 s x21), E, C, sched, tasks, s)
      \<in> measure (\<lambda>(E, C, sched, tasks, s). remaining_work tasks)"
    by (simp add: remaining_work_advance_task)
qed

declare executor_map.simps [simp del]

section \<open>crawl\<close>

text \<open>
  The summary lines, and \<^verbatim>\<open>crawl\<close>. \<^verbatim>\<open>ThreadPoolExecutor(max_workers=n)\<close> raises
  \<^verbatim>\<open>ValueError\<close> for \<open>n \<le> 0\<close>; the call is outside every \<^verbatim>\<open>try\<close>.
\<close>

definition summary :: "crawler \<Rightarrow> event list" where
  "summary s =
     Log Info Crawl_completed #
     map (\<lambda>(language, urls). Log Info (Summary_language language (card urls))) (visited_urls s) @
     [Log Info (Summary_total (sum_list (map (\<lambda>(language, urls). card urls) (visited_urls s))))]"

definition crawl :: "env \<Rightarrow> config \<Rightarrow> nat list \<Rightarrow> (py_exception + crawler) option" where
  "crawl E C sched =
     (case get_urls_from_sitemap E C of
        None \<Rightarrow> None
      | Some (Inl e) \<Rightarrow> Some (Inl e)
      | Some (Inr (urls, tr)) \<Rightarrow>
          if urls = []
          then Some (Inr \<lparr>visited_urls = [], trace = tr @ [Log Error No_urls_found]\<rparr>)
          else if max_workers C \<le> 0 then Some (Inl Pool_ValueError)
          else
            (let total_requests = length urls * length LANGUAGES;
                 s = \<lparr>visited_urls = [],
                      trace = tr @ [Log Info (Starting_crawl total_requests (length urls)
                                               (length LANGUAGES))]\<rparr>;
                 s' = executor_map E C sched (map (\<lambda>url. (url, LANGUAGES)) urls) s
             in Some (Inr (s'\<lparr>trace := trace s' @ summary s'\<rparr>))))"

section \<open>The sitemap hierarchy\<close>

text \<open>
  What one pass through the loop body does with a location: the child sitemaps it puts
  on the queue, the page URLs it adds to the result, the events it causes when it
  completes, and the exception that ends it when the sleep is refused. A location whose
  document cannot be fetched or parsed has neither children nor pages.
\<close>

definition child_sitemaps :: "env \<Rightarrow> config \<Rightarrow> string \<Rightarrow> string list" where
  "child_sitemaps E C url =
     (case fetch_url E C url of
        (content, fetched) \<Rightarrow>
          if truthy content
          then (case parse_sitemap E content of
                  (Tuple urls True, parsed) \<Rightarrow> urls
                | _ \<Rightarrow> [])
          else [])"

definition page_urls :: "env \<Rightarrow> config \<Rightarrow> string \<Rightarrow> string list" where
  "page_urls E C url =
     (case fetch_url E C url of
        (content, fetched) \<Rightarrow>
          if truthy content
          then (case parse_sitemap E content of
                  (Tuple urls False, parsed) \<Rightarrow> urls
                | _ \<Rightarrow> [])
          else [])"

definition iteration_events :: "env \<Rightarrow> config \<Rightarrow> string \<Rightarrow> event list" where
  "iteration_events E C url =
     (case fetch_url E C url of
        (content, fetched) \<Rightarrow>
          Log Info (Processing_sitemap url) # fetched @
          (if truthy content
           then (case parse_sitemap E content of
                  (Tuple urls is_index, parsed) \<Rightarrow>
                     parsed @ [Log Info (if is_index then Found_index (length urls)
                                         else Found_urls (length urls) url),
                               Sleep (delay C)]
                | _ \<Rightarrow> [])
           else []))"

definition iteration_raises :: "env \<Rightarrow> config \<Rightarrow> string \<Rightarrow> py_exception option" where
  "iteration_raises E C url =
     (if truthy (fst (fetch_url E C url)) then map_option Sleep_error (time_sleep E (delay C))
      else None)"

text \<open>
  The hierarchy under a location is nested within depth \<open>d\<close> when no chain of child
  sitemaps starting there has more than \<open>d\<close> steps. A hierarchy with a cycle is nested
  within no depth.
\<close>

fun nested_within :: "env \<Rightarrow> config \<Rightarrow> nat \<Rightarrow> string \<Rightarrow> bool" where
  "nested_within E C 0 url = (child_sitemaps E C url = [])"
| "nested_within E C (Suc d) url = list_all (nested_within E C d) (child_sitemaps E C url)"

inductive reachable :: "env \<Rightarrow> config \<Rightarrow> string \<Rightarrow> string \<Rightarrow> bool"
  for E :: env and C :: config where
    here: "reachable E C url url"
  | below: "child \<in> set (child_sitemaps E C url) \<Longrightarrow> reachable E C child u
            \<Longrightarrow> reachable E C url u"

code_pred reachable .

definition reachable_pages :: "env \<Rightarrow> config \<Rightarrow> string \<Rightarrow> string set" where
  "reachable_pages E C url = {p. \<exists>u. reachable E C url u \<and> p \<in> set (page_urls E C u)}"

text \<open>
  A document fails when the fetch raised (\<^verbatim>\<open>fetch_url\<close> returns \<^verbatim>\<open>None\<close>), when its
  body is empty, or when the parser rejects it.
\<close>

definition document_fails :: "env \<Rightarrow> config \<Rightarrow> string \<Rightarrow> bool" where
  "document_fails E C url =
     (case fst (fetch_url E C url) of
        None \<Rightarrow> True
      | Some c \<Rightarrow> c = [] \<or> fromstring E (replace xmlns_decl [] c) = None)"

fun is_sleep :: "event \<Rightarrow> bool" where
  "is_sleep (Sleep d) = True"
| "is_sleep e = False"

text \<open>The result of a resolution without its events.\<close>

definition urls_of ::
  "(py_exception + string list \<times> event list) option \<Rightarrow> (py_exception + string list) option" where
  "urls_of result = map_option (map_sum id fst) result"

section \<open>Visits and the pool\<close>

text \<open>
  The set \<^verbatim>\<open>self.visited_urls[language_name]\<close>, empty while the key is missing; the
  iterations the tasks of the pool have still to run; one such iteration; the request
  it sends when the pair has not been seen.
\<close>

definition seen :: "crawler \<Rightarrow> string \<Rightarrow> string set" where
  "seen s language_name =
     (case map_of (visited_urls s) language_name of None \<Rightarrow> {} | Some urls \<Rightarrow> urls)"

definition pending :: "task list \<Rightarrow> (string \<times> string \<times> string) list" where
  "pending tasks = concat (map (\<lambda>t. map (Pair (fst t)) (snd t)) tasks)"

definition visit_item :: "env \<Rightarrow> config \<Rightarrow> crawler \<Rightarrow> string \<times> string \<times> string \<Rightarrow> crawler" where
  "visit_item E C s x = language_step E C (fst x) s (snd x)"

definition visit_event :: "config \<Rightarrow> string \<times> string \<times> string \<Rightarrow> event" where
  "visit_event C x = Http_get (fst x) (visit_headers (snd (snd x))) (timeout C)"

definition visit_handler :: "string \<Rightarrow> string \<Rightarrow> py_exception option \<Rightarrow> event list" where
  "visit_handler url language_name raised =
     (case raised of None \<Rightarrow> [] | Some e \<Rightarrow> [Log Error (Error_visiting url language_name e)])"

definition is_summary :: "event \<Rightarrow> bool" where
  "is_summary e =
     (case e of
        Log lv m \<Rightarrow>
          (case m of
             Crawl_completed \<Rightarrow> True
           | Summary_language language n \<Rightarrow> True
           | Summary_total n \<Rightarrow> True
           | _ \<Rightarrow> False)
      | _ \<Rightarrow> False)"

text \<open>The events a resolution can cause: no summary line, and requests with its own headers.\<close>

definition resolver_event :: "event \<Rightarrow> bool" where
  "resolver_event e =
     (\<not> is_summary e \<and> (case e of Http_get u h t \<Rightarrow> h = fetch_headers | _ \<Rightarrow> True))"

definition start_state :: "string list \<Rightarrow> event list \<Rightarrow> crawler" where
  "start_state urls tr =
     \<lparr>visited_urls = [],
      trace = tr @ [Log Info (Starting_crawl (length urls * length LANGUAGES) (length urls)
                              (length LANGUAGES))]\<rparr>"

section \<open>An example site\<close>

text \<open>
  A sitemap index with two url-sets (one of them served gzip-compressed under a
  \<^verbatim>\<open>.gz\<close> location), a child that answers 404 and a child that is not XML. The url-sets
  repeat URLs, within one document and across the two, and list two URLs that differ in
  the trailing slash only. Of the four pages one answers 200 with a title, one 200
  without a title, one 404, and one request times out. \<^verbatim>\<open>time.sleep\<close> is CPython's.
\<close>

definition site_reply :: "string \<Rightarrow> http_reply" where
  "site_reply url =
     (if url = ''http://s/sitemap.xml'' then Response 200 [] ''index''
      else if url = ''http://s/a.xml'' then Response 200 [] ''urlset-a''
      else if url = ''http://s/b.xml.gz'' then Response 200 [] ''z:urlset-b''
      else if url = ''http://s/b.xml'' then Response 200 [] ''urlset-b''
      else if url = ''http://s/c.xml'' then Response 200 [(''content-encoding'', ''gzip'')] ''z:urlset-b''
      else if url = ''http://s/gone.xml'' then Response 404 [] ''''
      else if url = ''http://s/bad.xml'' then Response 200 [] ''<<''
      else if url = ''http://s/1'' then Response 200 [] ''<title>One</title>''
      else if url = ''http://s/2'' then Response 404 [] ''''
      else if url = ''http://s/3'' then Response 200 [] ''<p>''
      else Raises (RequestException ''timed out''))"

definition entry :: "string \<Rightarrow> string \<Rightarrow> xml" where
  "entry t loc = Element t None [Element ''loc'' (Some loc) []]"

definition site_xml :: "string \<Rightarrow> xml option" where
  "site_xml content =
     (if content = ''index''
      then Some (Element ''sitemapindex'' None
             [entry ''sitemap'' ''http://s/a.xml'', entry ''sitemap'' ''http://s/b.xml.gz'',
              entry ''sitemap'' ''http://s/gone.xml'', entry ''sitemap'' ''http://s/bad.xml''])
      else if content = ''urlset-a''
      then Some (Element ''urlset'' None
             [entry ''url'' ''http://s/1'', entry ''url'' ''http://s/2'', entry ''url'' ''http://s/1''])
      else if content = ''urlset-b''
      then Some (Element ''urlset'' None
             [entry ''url'' ''http://s/2'', entry ''url'' ''http://s/2/'', entry ''url'' ''http://s/3''])
      else None)"

definition site :: env where
  "site =
     \<lparr>requests_get = (\<lambda>url hs t. site_reply url),
      gunzip = (\<lambda>c. if take 2 c = ''z:'' then Some (drop 2 c) else None),
      fromstring = site_xml,
      soup_title = (\<lambda>html. if html = ''<title>One</title>'' then Some (Some ''One'') else None),
      random_uniform = (\<lambda>url language. 1 / 2),
      time_sleep = cpython_sleep,
      set_order = (\<lambda>url. 0)\<rparr>"

definition cfg :: config where
  "cfg = \<lparr>sitemap_url = ''http://s/sitemap.xml'', delay = Finite 1, timeout = 30, max_workers = 5\<rparr>"

definition site_urls :: "string list" where
  "site_urls = [''http://s/1'', ''http://s/2'', ''http://s/2/'', ''http://s/3'']"

text \<open>The same site entered at a location that does not answer.\<close>

definition cfg_down :: config where
  "cfg_down = \<lparr>sitemap_url = ''http://s/down.xml'', delay = Finite 1, timeout = 30, max_workers = 5\<rparr>"

definition cfg_gz :: config where
  "cfg_gz = \<lparr>sitemap_url = ''http://s/b.xml.gz'', delay = Finite 1, timeout = 30, max_workers = 5\<rparr>"

definition cfg_plain :: config where
  "cfg_plain = \<lparr>sitemap_url = ''http://s/b.xml'', delay = Finite 1, timeout = 30, max_workers = 5\<rparr>"

definition fresh :: crawler where
  "fresh = \<lparr>visited_urls = [], trace = []\<rparr>"

section \<open>The loop, one location at a time\<close>

lemma parse_truthy_not_empty: "truthy content \<Longrightarrow> fst (parse_sitemap E content) \<noteq> Empty_list"
  by (auto simp: truthy_def parse_sitemap_def split: option.splits)

lemma resolve_loop_Nil: "resolve_loop E C [] acc tr = Some (Inr (acc, tr))"
  by (subst resolve_loop.simps) simp

lemma resolve_loop_Cons:
  "resolve_loop E C (url # rest) acc tr =
     (case iteration_raises E C url of
        Some e \<Rightarrow> Some (Inl e)
      | None \<Rightarrow>
          resolve_loop E C (rest @ child_sitemaps E C url) (acc @ page_urls E C url)
            (tr @ iteration_events E C url))"
proof -
  obtain content fetched where f: "fetch_url E C url = (content, fetched)"
    by (cases "fetch_url E C url")
  show ?thesis
  proof (cases "truthy content")
    case False
    then show ?thesis
      by (subst resolve_loop.simps)
         (simp add: f child_sitemaps_def page_urls_def iteration_events_def iteration_raises_def)
  next
    case True
    obtain res parsed where p: "parse_sitemap E content = (res, parsed)"
      by (cases "parse_sitemap E content")
    with parse_truthy_not_empty [OF True, of E] obtain urls is_index
      where r: "res = Tuple urls is_index" by (cases res) auto
    show ?thesis
      by (subst resolve_loop.simps)
         (simp add: f True p r child_sitemaps_def page_urls_def iteration_events_def
            iteration_raises_def split: option.splits)
  qed
qed

lemma resolve_loop_step:
  "iteration_raises E C url = None \<Longrightarrow>
     resolve_loop E C (url # rest) acc tr =
       resolve_loop E C (rest @ child_sitemaps E C url) (acc @ page_urls E C url)
         (tr @ iteration_events E C url)"
  by (simp add: resolve_loop_Cons)

lemma sleep_accepted: "time_sleep E (delay C) = None \<Longrightarrow> iteration_raises E C url = None"
  by (simp add: iteration_raises_def)

text \<open>
  Partial correctness: what holds of every run that leaves the loop, by the rule of the
  least fixed point.
\<close>

lemma resolve_loop_induct [consumes 1, case_names Nil Raise Cons]:
  assumes run: "resolve_loop E C q acc tr = Some r"
    and nil: "\<And>acc tr. P [] acc tr (Inr (acc, tr))"
    and raise: "\<And>url rest acc tr e. iteration_raises E C url = Some e \<Longrightarrow>
      P (url # rest) acc tr (Inl e)"
    and cons: "\<And>url rest acc tr r. iteration_raises E C url = None \<Longrightarrow>
      P (rest @ child_sitemaps E C url) (acc @ page_urls E C url)
        (tr @ iteration_events E C url) r \<Longrightarrow> P (url # rest) acc tr r"
  shows "P q acc tr r"
proof -
  have "E = E \<longrightarrow> C = C \<longrightarrow> P q acc tr r"
  proof (rule resolve_loop.raw_induct
      [OF _ run, where P = "\<lambda>E' C' q acc tr r. E' = E \<longrightarrow> C' = C \<longrightarrow> P q acc tr r"],
      intro impI)
    fix loop E' C' q acc tr r
    assume IH: "\<And>E' C' q acc tr r. loop E' C' q acc tr = Some r \<Longrightarrow>
                  E' = E \<longrightarrow> C' = C \<longrightarrow> P q acc tr r"
      and body: "(case q of
        [] \<Rightarrow> Some (Inr (acc, tr))
      | url # rest \<Rightarrow>
          (case fetch_url E' C' url of
             (content, fetched) \<Rightarrow>
               if \<not> truthy content
               then loop E' C' rest acc
                      (tr @ Log Info (Processing_sitemap url) # fetched)
               else
                 (case parse_sitemap E' content of
                    (Empty_list, parsed) \<Rightarrow> Some (Inl Unpack_ValueError)
                  | (Tuple urls is_index, parsed) \<Rightarrow>
                      (case time_sleep E' (delay C') of
                         Some raised \<Rightarrow> Some (Inl (Sleep_error raised))
                       | None \<Rightarrow>
                           if is_index
                           then loop E' C' (rest @ urls) acc
                                  (tr @ Log Info (Processing_sitemap url) # fetched @ parsed
                                     @ [Log Info (Found_index (length urls)), Sleep (delay C')])
                           else loop E' C' rest (acc @ urls)
                                  (tr @ Log Info (Processing_sitemap url) # fetched @ parsed
                                     @ [Log Info (Found_urls (length urls) url),
                                        Sleep (delay C')]))))) = Some r"
      and E: "E' = E" and C: "C' = C"
    show "P q acc tr r"
    proof (cases q)
      case Nil
      with body nil show ?thesis by auto
    next
      case (Cons url rest)
      obtain content fetched where f: "fetch_url E C url = (content, fetched)"
        by (cases "fetch_url E C url")
      show ?thesis
      proof (cases "iteration_raises E C url")
        case (Some e)
        then have t: "truthy content" and s: "time_sleep E (delay C) \<noteq> None"
          and e: "map_option Sleep_error (time_sleep E (delay C)) = Some e"
          by (auto simp: iteration_raises_def f split: if_splits)
        obtain res parsed where p: "parse_sitemap E content = (res, parsed)"
          by (cases "parse_sitemap E content")
        with parse_truthy_not_empty [OF t, of E] obtain urls is_index
          where r: "res = Tuple urls is_index" by (cases res) auto
        from body E C Cons f t p r s e have "r = Inl e"
          by (auto split: option.splits)
        with raise [OF Some] show ?thesis
          unfolding Cons by simp
      next
        case None
        have "loop E C (rest @ child_sitemaps E C url) (acc @ page_urls E C url)
                (tr @ iteration_events E C url) = Some r"
        proof (cases "truthy content")
          case False
          with body E C Cons f show ?thesis
            by (simp add: child_sitemaps_def page_urls_def iteration_events_def)
        next
          case True
          with None f have s: "time_sleep E (delay C) = None"
            by (simp add: iteration_raises_def)
          obtain res parsed where p: "parse_sitemap E content = (res, parsed)"
            by (cases "parse_sitemap E content")
          with parse_truthy_not_empty [OF True, of E] obtain urls is_index
            where r: "res = Tuple urls is_index" by (cases res) auto
          with body E C Cons f True p s show ?thesis
            by (simp add: child_sitemaps_def page_urls_def iteration_events_def
                split: if_splits)
        qed
        then have "P (rest @ child_sitemaps E C url) (acc @ page_urls E C url)
                (tr @ iteration_events E C url) r"
          using IH by blast
        then show ?thesis unfolding Cons by (rule cons [OF None])
      qed
    qed
  qed
  then show ?thesis by simp
qed

lemma iteration_raises_sleep: "iteration_raises E C url = Some e \<Longrightarrow> \<exists>raised. e = Sleep_error raised"
  by (auto simp: iteration_raises_def split: if_splits)

lemma resolve_loop_exception:
  "resolve_loop E C q acc tr = Some r \<Longrightarrow>
     (\<exists>urls tr'. r = Inr (urls, tr')) \<or>
     (\<exists>raised. r = Inl (Sleep_error raised) \<and> time_sleep E (delay C) = Some raised)"
proof (induct rule: resolve_loop_induct)
  case (Nil acc tr)
  show ?case by simp
next
  case (Raise url rest acc tr e)
  then show ?case
    by (auto simp: iteration_raises_def split: if_splits)
next
  case (Cons url rest acc tr r)
  then show ?case by simp
qed

lemma resolve_loop_Inr:
  "time_sleep E (delay C) = None \<Longrightarrow> resolve_loop E C q acc tr = Some r \<Longrightarrow>
     \<exists>urls tr'. r = Inr (urls, tr')"
  using resolve_loop_exception [of E C q acc tr r] by auto

lemma resolve_loop_level:
  assumes "time_sleep E (delay C) = None"
  shows "resolve_loop E C (batch @ queue) acc tr =
     resolve_loop E C (queue @ concat (map (child_sitemaps E C) batch))
       (acc @ concat (map (page_urls E C) batch))
       (tr @ concat (map (iteration_events E C) batch))"
proof (induction batch arbitrary: queue acc tr)
  case Nil
  show ?case by simp
next
  case (Cons url batch)
  have "resolve_loop E C ((url # batch) @ queue) acc tr =
        resolve_loop E C (batch @ (queue @ child_sitemaps E C url)) (acc @ page_urls E C url)
          (tr @ iteration_events E C url)"
    by (simp add: resolve_loop_step [OF sleep_accepted [OF assms]])
  also have "\<dots> = resolve_loop E C
       ((queue @ child_sitemaps E C url) @ concat (map (child_sitemaps E C) batch))
       ((acc @ page_urls E C url) @ concat (map (page_urls E C) batch))
       ((tr @ iteration_events E C url) @ concat (map (iteration_events E C) batch))"
    by (rule Cons.IH)
  finally show ?case by simp
qed

lemma reachable_pages_unfold:
  "reachable_pages E C url =
     set (page_urls E C url) \<union> (\<Union>c \<in> set (child_sitemaps E C url). reachable_pages E C c)"
proof (rule set_eqI, rule iffI)
  fix p
  assume "p \<in> reachable_pages E C url"
  then obtain u where r: "reachable E C url u" and p: "p \<in> set (page_urls E C u)"
    by (auto simp: reachable_pages_def)
  from r p show "p \<in> set (page_urls E C url) \<union> (\<Union>c \<in> set (child_sitemaps E C url). reachable_pages E C c)"
    by (cases rule: reachable.cases) (auto simp: reachable_pages_def)
next
  fix p
  assume "p \<in> set (page_urls E C url) \<union> (\<Union>c \<in> set (child_sitemaps E C url). reachable_pages E C c)"
  then show "p \<in> reachable_pages E C url"
    by (auto simp: reachable_pages_def intro: reachable.intros)
qed

lemma resolve_loop_nested:
  assumes "time_sleep E (delay C) = None"
  shows "\<forall>url \<in> set q. nested_within E C D url \<Longrightarrow>
     \<exists>urls tr'. resolve_loop E C q acc tr = Some (Inr (urls, tr')) \<and>
        set urls = set acc \<union> (\<Union>url \<in> set q. reachable_pages E C url)"
proof (induction D arbitrary: q acc tr)
  case 0
  then have leaf: "\<forall>url \<in> set q. child_sitemaps E C url = []" by simp
  then have none: "concat (map (child_sitemaps E C) q) = []" by simp
  have "resolve_loop E C q acc tr =
        Some (Inr (acc @ concat (map (page_urls E C) q),
                   tr @ concat (map (iteration_events E C) q)))"
    using resolve_loop_level [OF assms, of q "[]" acc tr] by (simp add: none resolve_loop_Nil)
  moreover have "(\<Union>url \<in> set q. reachable_pages E C url) = (\<Union>url \<in> set q. set (page_urls E C url))"
    by (rule SUP_cong [OF refl], subst reachable_pages_unfold) (simp add: leaf)
  ultimately show ?case by auto
next
  case (Suc D)
  let ?next = "concat (map (child_sitemaps E C) q)"
  have "\<forall>url \<in> set ?next. nested_within E C D url"
    using Suc.prems by (auto simp: list_all_iff)
  from Suc.IH [OF this, of "acc @ concat (map (page_urls E C) q)"
      "tr @ concat (map (iteration_events E C) q)"]
  obtain urls tr' where
    run: "resolve_loop E C ?next (acc @ concat (map (page_urls E C) q))
            (tr @ concat (map (iteration_events E C) q)) = Some (Inr (urls, tr'))"
    and urls: "set urls = set (acc @ concat (map (page_urls E C) q)) \<union>
                 (\<Union>url \<in> set ?next. reachable_pages E C url)"
    by blast
  have "resolve_loop E C q acc tr = Some (Inr (urls, tr'))"
    using resolve_loop_level [OF assms, of q "[]" acc tr] run by simp
  moreover have "set urls = set acc \<union> (\<Union>url \<in> set q. reachable_pages E C url)"
  proof -
    have "(\<Union>url \<in> set q. reachable_pages E C url) =
          (\<Union>url \<in> set q. set (page_urls E C url) \<union>
             (\<Union>c \<in> set (child_sitemaps E C url). reachable_pages E C c))"
      by (rule SUP_cong [OF refl]) (rule reachable_pages_unfold)
    then show ?thesis unfolding urls by auto
  qed
  ultimately show ?case by blast
qed

lemma set_list_of_set: "set (list_of_set E xs) = set xs"
  by (simp add: list_of_set_def)

lemma distinct_list_of_set: "distinct (list_of_set E xs)"
  by (simp add: list_of_set_def)

lemma get_urls_Inr:
  "get_urls_from_sitemap E C = Some (Inr (urls, tr)) \<longleftrightarrow>
     (\<exists>all_page_urls tr'. resolve_loop E C [sitemap_url C] [] [] = Some (Inr (all_page_urls, tr'))
        \<and> urls = list_of_set E all_page_urls \<and> tr = tr' @ [Log Info (Found_unique (length urls))])"
  by (auto simp: get_urls_from_sitemap_def Let_def split: option.splits sum.splits)

lemma get_urls_Inl:
  "get_urls_from_sitemap E C = Some (Inl e) \<longleftrightarrow>
     resolve_loop E C [sitemap_url C] [] [] = Some (Inl e)"
  by (auto simp: get_urls_from_sitemap_def Let_def split: option.splits sum.splits)

lemma get_urls_distinct: "get_urls_from_sitemap E C = Some (Inr (urls, tr)) \<Longrightarrow> distinct urls"
  by (auto simp: get_urls_Inr distinct_list_of_set)

lemma failing_document_contributes_nothing:
  assumes "document_fails E C url"
  shows "child_sitemaps E C url = []" and "page_urls E C url = []"
  using assms
  by (auto simp: document_fails_def child_sitemaps_def page_urls_def parse_sitemap_def truthy_def
      split: prod.splits option.splits if_splits)

lemma iteration_events_cases:
  obtains (skipped) fetched where "\<not> truthy (fst (fetch_url E C url))"
      "iteration_events E C url = Log Info (Processing_sitemap url) # fetched"
      "\<forall>e \<in> set fetched. \<not> is_sleep e"
  | (slept) front where "truthy (fst (fetch_url E C url))"
      "iteration_events E C url = front @ [Sleep (delay C)]"
      "\<forall>e \<in> set front. \<not> is_sleep e"
proof -
  obtain content fetched where f: "fetch_url E C url = (content, fetched)"
    by (cases "fetch_url E C url")
  have nf: "\<forall>e \<in> set fetched. \<not> is_sleep e"
    using f by (auto simp: fetch_url_def split: sum.splits)
  show thesis
  proof (cases "truthy content")
    case False
    with f nf show thesis
      by (intro skipped [of fetched]) (simp_all add: iteration_events_def)
  next
    case True
    obtain res parsed where p: "parse_sitemap E content = (res, parsed)"
      by (cases "parse_sitemap E content")
    with parse_truthy_not_empty [OF True, of E] obtain urls is_index
      where r: "res = Tuple urls is_index" by (cases res) auto
    have np: "\<forall>e \<in> set parsed. \<not> is_sleep e"
      using p by (auto simp: parse_sitemap_def split: option.splits if_splits)
    show thesis
      by (rule slept [of "Log Info (Processing_sitemap url) # fetched @ parsed @
            [Log Info (if is_index then Found_index (length urls) else Found_urls (length urls) url)]"])
         (use f True p r nf np in \<open>auto simp: iteration_events_def\<close>)
  qed
qed

lemma sleeps_of_iteration:
  "filter is_sleep (iteration_events E C url) =
     (if truthy (fst (fetch_url E C url)) then [Sleep (delay C)] else [])"
  by (cases rule: iteration_events_cases [of E C url]) (simp_all add: filter_empty_conv)

lemma last_of_iteration:
  "truthy (fst (fetch_url E C url)) \<Longrightarrow> last (iteration_events E C url) = Sleep (delay C)"
  by (cases rule: iteration_events_cases [of E C url]) simp_all

lemma resolve_loop_trace:
  "resolve_loop E C q acc tr = Some r \<Longrightarrow>
     \<forall>urls tr'. r = Inr (urls, tr') \<longrightarrow>
       (\<exists>locations. tr' = tr @ concat (map (iteration_events E C) locations))"
proof (induct rule: resolve_loop_induct)
  case (Nil acc tr)
  have "tr = tr @ concat (map (iteration_events E C) [])" by simp
  then show ?case by blast
next
  case (Raise url rest acc tr e)
  show ?case by simp
next
  case (Cons url rest acc tr r)
  show ?case
  proof (intro allI impI)
    fix urls tr'
    assume "r = Inr (urls, tr')"
    with Cons(2) obtain locations where
      "tr' = (tr @ iteration_events E C url) @ concat (map (iteration_events E C) locations)"
      by blast
    then have "tr' = tr @ concat (map (iteration_events E C) (url # locations))"
      by simp
    then show "\<exists>locations. tr' = tr @ concat (map (iteration_events E C) locations)"
      by blast
  qed
qed

lemma fetch_url_events: "list_all resolver_event (snd (fetch_url E C url))"
  by (simp add: fetch_url_def resolver_event_def is_summary_def split: sum.splits)

lemma parse_sitemap_events: "list_all resolver_event (snd (parse_sitemap E content))"
  by (simp add: parse_sitemap_def resolver_event_def is_summary_def split: option.splits)

lemma iteration_events_kind: "list_all resolver_event (iteration_events E C url)"
proof -
  obtain content fetched where f: "fetch_url E C url = (content, fetched)"
    by (cases "fetch_url E C url")
  obtain res parsed where p: "parse_sitemap E content = (res, parsed)"
    by (cases "parse_sitemap E content")
  have a: "list_all resolver_event fetched"
    using fetch_url_events [of E C url] by (simp add: f)
  have b: "list_all resolver_event parsed"
    using parse_sitemap_events [of E content] by (simp add: p)
  have c: "resolver_event (Log Info m)" if "m = Processing_sitemap url \<or> m = Found_index n
      \<or> m = Found_urls n url" for m n
    using that by (auto simp: resolver_event_def is_summary_def)
  have d: "resolver_event (Sleep (delay C))"
    by (simp add: resolver_event_def is_summary_def)
  show ?thesis
    by (cases res) (simp_all add: iteration_events_def f p a b c d)
qed

lemma resolver_trace_kind:
  assumes "get_urls_from_sitemap E C = Some (Inr (urls, tr))"
  shows "list_all resolver_event tr"
proof -
  from assms(1) obtain all_page_urls tr' where
    run: "resolve_loop E C [sitemap_url C] [] [] = Some (Inr (all_page_urls, tr'))"
    and tr: "tr = tr' @ [Log Info (Found_unique (length urls))]"
    by (auto simp: get_urls_Inr)
  from resolve_loop_trace [OF run] obtain locations where
    "tr' = concat (map (iteration_events E C) locations)" by auto
  moreover have "list_all resolver_event (concat (map (iteration_events E C) locations))"
    by (induction locations) (simp_all add: iteration_events_kind)
  moreover have "resolver_event (Log Info (Found_unique (length urls)))"
    by (simp add: resolver_event_def is_summary_def)
  ultimately show ?thesis
    using tr by simp
qed

lemma child_sitemaps_config: "timeout C' = timeout C \<Longrightarrow> child_sitemaps E C' url = child_sitemaps E C url"
  by (simp add: child_sitemaps_def fetch_url_def fetch_try_def split: sum.splits)

lemma page_urls_config: "timeout C' = timeout C \<Longrightarrow> page_urls E C' url = page_urls E C url"
  by (simp add: page_urls_def fetch_url_def fetch_try_def split: sum.splits)

lemma iteration_raises_config:
  "timeout C' = timeout C \<Longrightarrow> delay C' = delay C \<Longrightarrow>
     iteration_raises E C' url = iteration_raises E C url"
  by (simp add: iteration_raises_def fetch_url_def fetch_try_def split: sum.splits)

lemma urls_of_resolve_loop_Some:
  assumes same: "timeout C' = timeout C" "delay C' = delay C"
  shows "resolve_loop E C q acc tr = Some r \<Longrightarrow>
     \<forall>tr'. urls_of (resolve_loop E C' q acc tr') = urls_of (Some r)"
proof (induct rule: resolve_loop_induct)
  case (Nil acc tr)
  show ?case by (simp add: resolve_loop_Nil urls_of_def)
next
  case (Raise url rest acc tr e)
  then show ?case
    by (simp add: resolve_loop_Cons iteration_raises_config [OF same] urls_of_def)
next
  case (Cons url rest acc tr r)
  show ?case
  proof
    fix tr'
    have "resolve_loop E C' (url # rest) acc tr' =
          resolve_loop E C' (rest @ child_sitemaps E C url) (acc @ page_urls E C url)
            (tr' @ iteration_events E C' url)"
      by (simp add: resolve_loop_Cons iteration_raises_config [OF same] Cons(1)
          child_sitemaps_config [OF same(1)] page_urls_config [OF same(1)])
    with Cons(2) show "urls_of (resolve_loop E C' (url # rest) acc tr') = urls_of (Some r)"
      by simp
  qed
qed

lemma urls_of_resolve_loop:
  assumes same: "timeout C' = timeout C" "delay C' = delay C"
  shows "urls_of (resolve_loop E C q acc tr) = urls_of (resolve_loop E C' q acc tr')"
proof (cases "resolve_loop E C q acc tr")
  case (Some r)
  with urls_of_resolve_loop_Some [OF same Some] show ?thesis by simp
next
  case None
  show ?thesis
  proof (cases "resolve_loop E C' q acc tr'")
    case None
    with \<open>resolve_loop E C q acc tr = None\<close> show ?thesis by simp
  next
    case (Some r)
    from urls_of_resolve_loop_Some [OF same [symmetric] Some] have
      "urls_of (resolve_loop E C q acc tr) = urls_of (Some r)" by blast
    with None show ?thesis by (simp add: urls_of_def)
  qed
qed

lemma urls_of_get_urls:
  "urls_of (get_urls_from_sitemap E C) =
     map_option (map_sum id (list_of_set E)) (urls_of (resolve_loop E C [sitemap_url C] [] []))"
  by (simp add: get_urls_from_sitemap_def urls_of_def Let_def split: option.splits sum.splits)

section \<open>One visit\<close>

lemma visit_url_seen:
  "seen (visit_url E C s url lang hdr) lang' =
     (if lang' = lang then insert url (seen s lang) else seen s lang')"
  by (auto simp: visit_url_def seen_def update_conv' split: option.splits prod.splits)

lemma visit_url_keys:
  "map fst (visited_urls (visit_url E C s url lang hdr)) =
     (if lang \<in> set (map fst (visited_urls s)) then map fst (visited_urls s)
      else map fst (visited_urls s) @ [lang])"
proof (cases "map_of (visited_urls s) lang")
  case None
  then have "lang \<notin> fst ` set (visited_urls s)"
    by (simp add: map_of_eq_None_iff)
  with None show ?thesis
    by (simp add: visit_url_def update_keys split: prod.splits)
next
  case (Some urls)
  then have "lang \<in> fst ` set (visited_urls s)"
    by (metis map_of_eq_None_iff option.distinct(1))
  with Some show ?thesis
    by (simp add: visit_url_def update_keys split: prod.splits)
qed

lemma visit_url_trace:
  "trace (visit_url E C s url lang hdr) = trace s @
     (if url \<in> seen s lang then [Log Debug (Already_visited url lang)]
      else fst (visit_try E C url lang hdr) @ visit_handler url lang (snd (visit_try E C url lang hdr)))"
  by (auto simp: visit_url_def seen_def visit_handler_def split: option.splits prod.splits)

lemma visit_try_count:
  "count_list (fst (visit_try E C url lang hdr)) (Http_get u h t) =
     (if Http_get u h t = visit_event C (url, lang, hdr) then 1 else 0)"
  by (auto simp: visit_try_def visit_event_def split: http_reply.splits option.splits)

lemma visit_handler_count: "count_list (visit_handler url lang raised) (Http_get u h t) = 0"
  by (simp add: visit_handler_def split: option.splits)

lemma visit_item_seen:
  "seen (visit_item E C s x) lang =
     (if lang = fst (snd x) then insert (fst x) (seen s lang) else seen s lang)"
  by (cases x) (simp add: visit_item_def language_step_def Let_def seen_def [of "_\<lparr>trace := _\<rparr>"]
      visit_url_seen [unfolded seen_def] seen_def)

lemma visit_item_keys:
  "map fst (visited_urls (visit_item E C s x)) =
     (if fst (snd x) \<in> set (map fst (visited_urls s)) then map fst (visited_urls s)
      else map fst (visited_urls s) @ [fst (snd x)])"
  by (cases x) (simp add: visit_item_def language_step_def Let_def visit_url_keys)

lemma visit_item_count_fresh:
  "fst x \<notin> seen s (fst (snd x)) \<Longrightarrow>
     count_list (trace (visit_item E C s x)) (Http_get u h t) =
       count_list (trace s) (Http_get u h t) + (if Http_get u h t = visit_event C x then 1 else 0)"
  by (cases x)
     (simp add: visit_item_def language_step_def Let_def visit_url_trace visit_try_count
        visit_handler_count)

section \<open>The pool runs its iterations in some order\<close>

lemma executor_map_done: "active C tasks = 0 \<Longrightarrow> executor_map E C sched tasks s = s"
  by (subst executor_map.simps) simp

lemma active_positive: "0 < max_workers C \<Longrightarrow> active C tasks = 0 \<longleftrightarrow> tasks = []"
  by (cases tasks) (simp_all add: active_def min_def)

lemma pending_append: "pending (xs @ ys) = pending xs @ pending ys"
  by (simp add: pending_def)

lemma pending_Cons: "pending (t # ts) = map (Pair (fst t)) (snd t) @ pending ts"
  by (simp add: pending_def)

lemma pending_drop_task:
  assumes "i < length tasks" and "tasks ! i = (url, [])"
  shows "pending (take i tasks @ drop (Suc i) tasks) = pending tasks"
proof -
  have "pending tasks = pending (take i tasks @ tasks ! i # drop (Suc i) tasks)"
    by (rule arg_cong [OF id_take_nth_drop [OF assms(1)]])
  then show ?thesis
    by (simp add: pending_append pending_Cons assms(2))
qed

lemma pending_advance_task:
  assumes "i < length tasks" and "tasks ! i = (url, l # ls)"
  shows "mset (pending tasks) = add_mset (url, l) (mset (pending (tasks[i := (url, ls)])))"
proof -
  have "pending tasks = pending (take i tasks @ tasks ! i # drop (Suc i) tasks)"
    by (rule arg_cong [OF id_take_nth_drop [OF assms(1)]])
  moreover have "pending (tasks[i := (url, ls)]) =
      pending (take i tasks @ (url, ls) # drop (Suc i) tasks)"
    by (rule arg_cong [OF upd_conv_take_nth_drop [OF assms(1)]])
  ultimately show ?thesis
    by (simp add: pending_append pending_Cons assms(2))
qed

lemma executor_map_interleaving:
  "0 < max_workers C \<Longrightarrow>
   \<exists>order. executor_map E C sched tasks s = foldl (visit_item E C) s order \<and>
     mset order = mset (pending tasks)"
proof (induction E C sched tasks s rule: executor_map.induct)
  case (1 E C sched tasks s)
  note workers = \<open>0 < max_workers C\<close>
  show ?case
  proof (cases "active C tasks = 0")
    case True
    then have "tasks = []"
      using workers by (simp add: active_positive)
    have "executor_map E C sched tasks s = foldl (visit_item E C) s []"
      by (simp add: True executor_map_done)
    moreover have "mset [] = mset (pending tasks)"
      by (simp add: \<open>tasks = []\<close> pending_def)
    ultimately show ?thesis by blast
  next
    case False
    define i where "i = pick sched (active C tasks)"
    have i: "i < length tasks"
      using False by (simp add: i_def pick_active)
    obtain url langs where t: "tasks ! i = (url, langs)"
      by (cases "tasks ! i")
    show ?thesis
    proof (cases langs)
      case Nil
      have run: "executor_map E C sched tasks s =
          executor_map E C (tl sched) (take i tasks @ drop (Suc i) tasks) s"
        by (subst executor_map.simps) (simp add: False t [unfolded i_def] Nil i_def)
      from "1.IH"(1) [OF False t [unfolded i_def, symmetric] Nil workers]
      obtain order where
        "executor_map E C (tl sched) (take i tasks @ drop (Suc i) tasks) s =
           foldl (visit_item E C) s order"
        and "mset order = mset (pending (take i tasks @ drop (Suc i) tasks))"
        unfolding i_def by blast
      with run pending_drop_task [OF i t [unfolded Nil]] show ?thesis
        by auto
    next
      case (Cons l ls)
      have run: "executor_map E C sched tasks s =
          executor_map E C (tl sched) (tasks[i := (url, ls)]) (language_step E C url s l)"
        by (subst executor_map.simps) (simp add: False t [unfolded i_def] Cons i_def)
      from "1.IH"(2) [OF False t [unfolded i_def, symmetric] Cons workers]
      obtain order where
        o: "executor_map E C (tl sched) (tasks[i := (url, ls)]) (language_step E C url s l) =
           foldl (visit_item E C) (language_step E C url s l) order"
        and m: "mset order = mset (pending (tasks[i := (url, ls)]))"
        unfolding i_def by blast
      have "executor_map E C sched tasks s = foldl (visit_item E C) s ((url, l) # order)"
        using run o by (simp add: visit_item_def)
      moreover have "mset ((url, l) # order) = mset (pending tasks)"
        using m pending_advance_task [OF i t [unfolded Cons]] by simp
      ultimately show ?thesis by blast
    qed
  qed
qed

lemma foldl_visit_seen:
  "seen (foldl (visit_item E C) s order) lang =
     seen s lang \<union> {u. \<exists>hdr. (u, lang, hdr) \<in> set order}"
proof (induction order arbitrary: s)
  case Nil
  show ?case by simp
next
  case (Cons x order)
  obtain u l h where x: "x = (u, l, h)" by (cases x)
  show ?case
    by (auto simp: Cons.IH visit_item_seen x)
qed

lemma foldl_visit_keys_set:
  "set (map fst (visited_urls (foldl (visit_item E C) s order))) =
     set (map fst (visited_urls s)) \<union> (\<lambda>x. fst (snd x)) ` set order"
proof (induction order arbitrary: s)
  case Nil
  show ?case by simp
next
  case (Cons x order)
  show ?case
    unfolding foldl_Cons Cons.IH visit_item_keys by auto
qed

lemma foldl_visit_keys_distinct:
  "distinct (map fst (visited_urls s)) \<Longrightarrow>
     distinct (map fst (visited_urls (foldl (visit_item E C) s order)))"
proof (induction order arbitrary: s)
  case Nil
  then show ?case by simp
next
  case (Cons x order)
  have "distinct (map fst (visited_urls (visit_item E C s x)))"
    using Cons.prems unfolding visit_item_keys by auto
  from Cons.IH [OF this] show ?case by simp
qed

lemma foldl_visit_count:
  assumes "distinct (map (\<lambda>x. (fst x, fst (snd x))) order)"
    and "\<forall>x \<in> set order. fst x \<notin> seen s (fst (snd x))"
  shows "count_list (trace (foldl (visit_item E C) s order)) (Http_get u h t) =
     count_list (trace s) (Http_get u h t) + count_list (map (visit_event C) order) (Http_get u h t)"
  using assms
proof (induction order arbitrary: s)
  case Nil
  show ?case by simp
next
  case (Cons x order)
  have fresh: "fst x \<notin> seen s (fst (snd x))"
    using Cons.prems(2) by simp
  have d: "distinct (map (\<lambda>x. (fst x, fst (snd x))) order)"
    using Cons.prems(1) by simp
  have f: "\<forall>y \<in> set order. fst y \<notin> seen (visit_item E C s x) (fst (snd y))"
  proof
    fix y
    assume y: "y \<in> set order"
    then have "(fst y, fst (snd y)) \<in> (\<lambda>x. (fst x, fst (snd x))) ` set order"
      by (rule imageI)
    moreover have "(fst x, fst (snd x)) \<notin> (\<lambda>x. (fst x, fst (snd x))) ` set order"
      using Cons.prems(1) by simp
    ultimately have "(fst y, fst (snd y)) \<noteq> (fst x, fst (snd x))"
      by metis
    moreover have "fst y \<notin> seen s (fst (snd y))"
      using Cons.prems(2) y by simp
    ultimately show "fst y \<notin> seen (visit_item E C s x) (fst (snd y))"
      by (auto simp: visit_item_seen)
  qed
  show ?case
    using Cons.IH [OF d f] by (simp add: visit_item_count_fresh [OF fresh] eq_commute)
qed

section \<open>The work list of a crawl\<close>

lemma languages_distinct:
  "distinct (map fst LANGUAGES)" "distinct (map snd LANGUAGES)"
  by (simp_all add: LANGUAGES_def)

lemma visit_headers_inject: "visit_headers h = visit_headers h' \<longleftrightarrow> h = h'"
  by (simp add: visit_headers_def)

lemma visit_headers_not_fetch: "visit_headers h \<noteq> fetch_headers"
  by (simp add: visit_headers_def fetch_headers_def)

lemma pending_initial: "pending (map (\<lambda>url. (url, LANGUAGES)) urls) = List.product urls LANGUAGES"
  by (simp add: pending_def product_concat_map comp_def)

lemma distinct_keys_product:
  assumes "distinct urls"
  shows "distinct (map (\<lambda>x. (fst x, fst (snd x))) (List.product urls LANGUAGES))"
proof -
  have "map (\<lambda>x. (fst x, fst (snd x))) (List.product urls LANGUAGES) =
        List.product urls (map fst LANGUAGES)"
    by (induction urls) (simp_all add: comp_def)
  with assms languages_distinct(1) show ?thesis
    by (simp add: distinct_product)
qed

lemma distinct_events_product:
  assumes "distinct urls"
  shows "distinct (map (visit_event C) (List.product urls LANGUAGES))"
proof -
  have "map (visit_event C) (List.product urls LANGUAGES) =
        map (\<lambda>(u, h). Http_get u (visit_headers h) (timeout C)) (List.product urls (map snd LANGUAGES))"
    by (induction urls) (simp_all add: comp_def visit_event_def)
  moreover have "inj (\<lambda>(u, h). Http_get u (visit_headers h) (timeout C))"
    by (auto simp: inj_on_def visit_headers_inject)
  ultimately show ?thesis
    using assms languages_distinct(2)
    by (simp add: distinct_map distinct_product inj_on_subset [OF _ subset_UNIV])
qed

lemma event_in_product:
  assumes "(lang, hdr) \<in> set LANGUAGES"
  shows "Http_get u (visit_headers hdr) (timeout C) \<in> visit_event C ` set (List.product urls LANGUAGES)
     \<longleftrightarrow> u \<in> set urls"
proof
  assume "Http_get u (visit_headers hdr) (timeout C) \<in> visit_event C ` set (List.product urls LANGUAGES)"
  then obtain a l h where "(a, l, h) \<in> set (List.product urls LANGUAGES)"
    and "Http_get u (visit_headers hdr) (timeout C) = visit_event C (a, l, h)"
    by auto
  then have "a \<in> set urls" and "u = a"
    by (simp_all add: visit_event_def)
  then show "u \<in> set urls"
    by simp
next
  assume "u \<in> set urls"
  with assms have "(u, lang, hdr) \<in> set (List.product urls LANGUAGES)"
    by simp
  then have "visit_event C (u, lang, hdr) \<in> visit_event C ` set (List.product urls LANGUAGES)"
    by (rule imageI)
  then show "Http_get u (visit_headers hdr) (timeout C) \<in> visit_event C ` set (List.product urls LANGUAGES)"
    by (simp add: visit_event_def)
qed

lemma resolver_trace_no_visit:
  assumes "get_urls_from_sitemap E C = Some (Inr (urls, tr))"
  shows "count_list tr (Http_get u (visit_headers hdr) t) = 0"
proof -
  have "\<not> resolver_event (Http_get u (visit_headers hdr) t)"
    by (simp add: resolver_event_def visit_headers_not_fetch)
  with resolver_trace_kind [OF assms] have "Http_get u (visit_headers hdr) t \<notin> set tr"
    by (auto simp: list_all_iff)
  then show ?thesis
    by (simp add: count_list_0_iff)
qed

lemma resolver_trace_no_summary:
  assumes "get_urls_from_sitemap E C = Some (Inr (urls, tr))"
  shows "\<not> list_ex is_summary tr"
  using resolver_trace_kind [OF assms]
  by (auto simp: list_all_iff list_ex_iff resolver_event_def)

lemma crawl_empty:
  "get_urls_from_sitemap E C = Some (Inr ([], tr)) \<Longrightarrow>
     crawl E C sched = Some (Inr \<lparr>visited_urls = [], trace = tr @ [Log Error No_urls_found]\<rparr>)"
  by (simp add: crawl_def)

lemma crawl_run:
  assumes "get_urls_from_sitemap E C = Some (Inr (urls, tr))" and "urls \<noteq> []"
    and "0 < max_workers C"
  obtains order where "mset order = mset (List.product urls LANGUAGES)"
    and "crawl E C sched =
      Some (Inr ((foldl (visit_item E C) (start_state urls tr) order)
        \<lparr>trace := trace (foldl (visit_item E C) (start_state urls tr) order)
            @ summary (foldl (visit_item E C) (start_state urls tr) order)\<rparr>))"
proof -
  from executor_map_interleaving [OF assms(3), of E sched "map (\<lambda>url. (url, LANGUAGES)) urls"
      "start_state urls tr"]
  obtain order where
    run: "executor_map E C sched (map (\<lambda>url. (url, LANGUAGES)) urls) (start_state urls tr) =
          foldl (visit_item E C) (start_state urls tr) order"
    and m: "mset order = mset (List.product urls LANGUAGES)"
    by (auto simp: pending_initial)
  have "crawl E C sched =
      Some (Inr ((foldl (visit_item E C) (start_state urls tr) order)
        \<lparr>trace := trace (foldl (visit_item E C) (start_state urls tr) order)
            @ summary (foldl (visit_item E C) (start_state urls tr) order)\<rparr>))"
    using assms run [unfolded start_state_def]
    by (simp add: crawl_def Let_def start_state_def)
  with m show thesis by (rule that)
qed

lemma crawl_Inr_cases:
  assumes "crawl E C sched = Some (Inr s)"
    and "get_urls_from_sitemap E C = Some (Inr (urls, tr))"
  shows "urls = [] \<or> 0 < max_workers C"
  using assms by (auto simp: crawl_def split: if_splits)

lemma seen_start: "seen (start_state urls tr) lang = {}"
  by (simp add: seen_def start_state_def)

lemma visits_seen:
  assumes "mset order = mset (List.product urls LANGUAGES)" and "(lang, hdr) \<in> set LANGUAGES"
  shows "seen (foldl (visit_item E C) (start_state urls tr) order) lang = set urls"
proof -
  have "set order = set urls \<times> set LANGUAGES"
    using mset_eq_setD [OF assms(1)] by simp
  then have "{u. \<exists>h. (u, lang, h) \<in> set order} =
      {u. u \<in> set urls \<and> (\<exists>h. (lang, h) \<in> set LANGUAGES)}"
    by simp
  also have "\<dots> = set urls"
    using assms(2) by blast
  finally show ?thesis
    by (simp only: foldl_visit_seen seen_start Un_empty_left)
qed

lemma visits_count:
  assumes "mset order = mset (List.product urls LANGUAGES)" and "(lang, hdr) \<in> set LANGUAGES"
    and "distinct urls"
    and "get_urls_from_sitemap E C = Some (Inr (urls, tr))"
  shows "count_list (trace (foldl (visit_item E C) (start_state urls tr) order))
           (Http_get u (visit_headers hdr) (timeout C)) = (if u \<in> set urls then 1 else 0)"
proof -
  let ?e = "Http_get u (visit_headers hdr) (timeout C)"
  have same: "mset (map f order) = mset (map f (List.product urls LANGUAGES))" for f :: "string \<times> string \<times> string \<Rightarrow> 'b"
    using arg_cong [OF assms(1), of "image_mset f"] by simp
  have d: "distinct (map (\<lambda>x. (fst x, fst (snd x))) order)"
    using distinct_keys_product [OF assms(3)]
      mset_eq_imp_distinct_iff [OF same [of "\<lambda>x. (fst x, fst (snd x))"]] by simp
  have "count_list (map (visit_event C) order) ?e = count (mset (map (visit_event C) order)) ?e"
    by (simp only: count_mset)
  also have "\<dots> = count (mset (map (visit_event C) (List.product urls LANGUAGES))) ?e"
    by (simp only: same)
  also have "\<dots> = (if ?e \<in> set (map (visit_event C) (List.product urls LANGUAGES)) then 1 else 0)"
    using distinct_events_product [OF assms(3), of C] by (simp add: distinct_count_atmost_1)
  also have "\<dots> = (if u \<in> set urls then 1 else 0)"
    using event_in_product [OF assms(2), of u C urls] by simp
  finally have c: "count_list (map (visit_event C) order) ?e = (if u \<in> set urls then 1 else 0)" .
  have "count_list (trace (start_state urls tr)) ?e = 0"
    using resolver_trace_no_visit [OF assms(4), of u hdr "timeout C"]
    by (simp add: start_state_def)
  with foldl_visit_count [OF d, of "start_state urls tr" E C u "visit_headers hdr" "timeout C"] c
  show ?thesis by (simp add: seen_start)
qed

lemma summary_count: "count_list (summary s) (Http_get u h t) = 0"
  by (auto simp: summary_def count_list_0_iff)

lemma visits_summary:
  fixes E :: env and C :: config and tr :: "event list"
  assumes m: "mset order = mset (List.product urls LANGUAGES)"
    and d: "distinct urls" and ne: "urls \<noteq> []"
  defines "s' \<equiv> foldl (visit_item E C) (start_state urls tr) order"
  shows "sum_list (map (\<lambda>(language, urls). card urls) (visited_urls s')) =
           length urls * length LANGUAGES"
    and "(lang, hdr) \<in> set LANGUAGES \<Longrightarrow> (lang, set urls) \<in> set (visited_urls s')"
proof -
  have order: "set order = set urls \<times> set LANGUAGES"
    using mset_eq_setD [OF m] by simp
  have seen: "seen s' l = set urls" if "l \<in> fst ` set LANGUAGES" for l
  proof -
    from that obtain h where "(l, h) \<in> set LANGUAGES" by auto
    from visits_seen [OF m this] show ?thesis by (simp add: s'_def)
  qed
  have dk: "distinct (map fst (visited_urls s'))"
    unfolding s'_def by (rule foldl_visit_keys_distinct) (simp add: start_state_def)
  have "(\<lambda>x. fst (snd x)) ` (set urls \<times> set LANGUAGES) = fst ` set LANGUAGES"
  proof -
    from ne obtain a where "a \<in> set urls" by (cases urls) auto
    then show ?thesis by force
  qed
  then have keys: "set (map fst (visited_urls s')) = fst ` set LANGUAGES"
    unfolding s'_def foldl_visit_keys_set order by (simp add: start_state_def)
  have entry: "v = set urls" if "(k, v) \<in> set (visited_urls s')" for k v
  proof -
    from that dk have "map_of (visited_urls s') k = Some v"
      by simp
    then have "seen s' k = v"
      by (simp add: seen_def)
    moreover from that keys have "k \<in> fst ` set LANGUAGES"
      by force
    ultimately show ?thesis
      using seen by simp
  qed
  have "map (\<lambda>(language, urls). card urls) (visited_urls s') =
        map (\<lambda>x. length urls) (visited_urls s')"
    using entry distinct_card [OF d] by (intro map_cong refl) auto
  then have "sum_list (map (\<lambda>(language, urls). card urls) (visited_urls s')) =
        sum_list (map (\<lambda>x. length urls) (visited_urls s'))"
    by (rule arg_cong)
  then have "sum_list (map (\<lambda>(language, urls). card urls) (visited_urls s')) =
        length (visited_urls s') * length urls"
    by (simp only: sum_list_triv) simp
  moreover have "length (visited_urls s') = length LANGUAGES"
  proof -
    have "length (visited_urls s') = card (set (map fst (visited_urls s')))"
      using distinct_card [OF dk] by simp
    also have "\<dots> = card (set (map fst LANGUAGES))"
      unfolding keys by simp
    also have "\<dots> = length LANGUAGES"
      using distinct_card [OF languages_distinct(1)] by simp
    finally show ?thesis .
  qed
  ultimately show "sum_list (map (\<lambda>(language, urls). card urls) (visited_urls s')) =
      length urls * length LANGUAGES"
    by simp
  show "(lang, set urls) \<in> set (visited_urls s')" if l: "(lang, hdr) \<in> set LANGUAGES"
  proof -
    from l have "lang \<in> fst ` set LANGUAGES" by force
    with keys obtain v where v: "(lang, v) \<in> set (visited_urls s')"
      by force
    with entry show ?thesis by blast
  qed
qed

text \<open>What a crawl that returns leaves in its state, whatever the replies to the visits.\<close>

lemma crawl_visits:
  assumes c: "crawl E C sched = Some (Inr s)"
    and g: "get_urls_from_sitemap E C = Some (Inr (urls, tr))"
    and l: "(lang, hdr) \<in> set LANGUAGES"
  shows "count_list (trace s) (Http_get u (visit_headers hdr) (timeout C)) =
           (if u \<in> set urls then 1 else 0)"
    and "seen s lang = set urls"
proof -
  have "count_list (trace s) (Http_get u (visit_headers hdr) (timeout C)) =
           (if u \<in> set urls then 1 else 0) \<and> seen s lang = set urls"
  proof (cases "urls = []")
    case True
    with c g have "s = \<lparr>visited_urls = [], trace = tr @ [Log Error No_urls_found]\<rparr>"
      by (simp add: crawl_def)
    with True resolver_trace_no_visit [OF g, of u hdr "timeout C"] show ?thesis
      by (simp add: seen_def)
  next
    case False
    with crawl_Inr_cases [OF c g] have w: "0 < max_workers C" by simp
    from crawl_run [OF g False w, of sched] obtain order where
      m: "mset order = mset (List.product urls LANGUAGES)"
      and r: "crawl E C sched =
        Some (Inr ((foldl (visit_item E C) (start_state urls tr) order)
          \<lparr>trace := trace (foldl (visit_item E C) (start_state urls tr) order)
              @ summary (foldl (visit_item E C) (start_state urls tr) order)\<rparr>))"
      by blast
    from c r have s: "s = (foldl (visit_item E C) (start_state urls tr) order)
          \<lparr>trace := trace (foldl (visit_item E C) (start_state urls tr) order)
              @ summary (foldl (visit_item E C) (start_state urls tr) order)\<rparr>"
      by simp
    show ?thesis
      unfolding s
      using visits_count [OF m l get_urls_distinct [OF g] g, of u] visits_seen [OF m l, of E C tr]
      by (simp add: summary_count seen_def)
  qed
  then show "count_list (trace s) (Http_get u (visit_headers hdr) (timeout C)) =
           (if u \<in> set urls then 1 else 0)"
    and "seen s lang = set urls"
    by simp_all
qed

lemma crawl_attempted:
  assumes c: "crawl E C sched = Some (Inr s)"
    and g: "get_urls_from_sitemap E C = Some (Inr (urls, tr))"
    and l: "(lang, hdr) \<in> set LANGUAGES"
  shows "{u. Http_get u (visit_headers hdr) (timeout C) \<in> set (trace s)} = set urls"
proof -
  have "Http_get u (visit_headers hdr) (timeout C) \<in> set (trace s) \<longleftrightarrow> u \<in> set urls" for u
    using crawl_visits(1) [OF c g l, of u] count_list_0_iff [of "trace s"
        "Http_get u (visit_headers hdr) (timeout C)"]
    by (cases "u \<in> set urls") simp_all
  then show ?thesis by blast
qed

lemma crawl_summary_lines:
  assumes g: "get_urls_from_sitemap E C = Some (Inr (urls, tr))"
    and ne: "urls \<noteq> []" and w: "0 < max_workers C"
  shows "\<exists>s. crawl E C sched = Some (Inr s) \<and>
     (\<forall>language \<in> set LANGUAGES.
        Log Info (Summary_language (fst language) (length urls)) \<in> set (trace s)) \<and>
     last (trace s) = Log Info (Summary_total (length urls * length LANGUAGES))"
proof -
  from crawl_run [OF g ne w, of sched] obtain order where
    m: "mset order = mset (List.product urls LANGUAGES)"
    and r: "crawl E C sched =
      Some (Inr ((foldl (visit_item E C) (start_state urls tr) order)
        \<lparr>trace := trace (foldl (visit_item E C) (start_state urls tr) order)
            @ summary (foldl (visit_item E C) (start_state urls tr) order)\<rparr>))"
    by blast
  let ?s' = "foldl (visit_item E C) (start_state urls tr) order"
  note d = get_urls_distinct [OF g]
  have total: "last (trace ?s' @ summary ?s') =
      Log Info (Summary_total (length urls * length LANGUAGES))"
    using visits_summary(1) [OF m d ne, of E C tr] by (simp add: summary_def)
  have line: "Log Info (Summary_language (fst language) (length urls)) \<in> set (summary ?s')"
    if "language \<in> set LANGUAGES" for language
  proof -
    from that have "(fst language, snd language) \<in> set LANGUAGES" by simp
    from visits_summary(2) [OF m d ne this, of E C tr]
    have "(fst language, set urls) \<in> set (visited_urls ?s')" .
    then have "(\<lambda>(language, urls). Log Info (Summary_language language (card urls)))
        (fst language, set urls) \<in>
        (\<lambda>(language, urls). Log Info (Summary_language language (card urls))) `
          set (visited_urls ?s')"
      by (rule imageI)
    then have "Log Info (Summary_language (fst language) (card (set urls))) \<in> set (summary ?s')"
      unfolding summary_def by simp
    then show ?thesis
      using distinct_card [OF d] by simp
  qed
  show ?thesis
    using r total line by auto
qed

lemma language_step_trace:
  "\<exists>events. trace (language_step E C url s language) =
     trace s @ events @ [Log Info (Completed_processing url (fst language))]"
  by (cases language) (simp add: language_step_def Let_def visit_url_trace)

lemma foldl_language_step_completed:
  "language \<in> set languages \<Longrightarrow>
     Log Info (Completed_processing url (fst language))
       \<in> set (trace (foldl (language_step E C url) s languages))"
proof (induction languages arbitrary: s rule: rev_induct)
  case Nil
  then show ?case by simp
next
  case (snoc l languages)
  obtain events where t: "trace (language_step E C url (foldl (language_step E C url) s languages) l) =
      trace (foldl (language_step E C url) s languages) @ events
        @ [Log Info (Completed_processing url (fst l))]"
    using language_step_trace by blast
  show ?case
  proof (cases "language = l")
    case True
    with t show ?thesis by simp
  next
    case False
    with snoc.prems have "language \<in> set languages" by simp
    from snoc.IH [OF this, of s] t show ?thesis by simp
  qed
qed

section \<open>The example site, evaluated\<close>

lemma replace_short: "length cs < length old \<Longrightarrow> replace old new cs = cs"
  by (induction cs) auto

lemma xmlns_length: "length xmlns_decl = 51"
  by (simp add: xmlns_decl_def)

lemma headers_get_lowercase:
  "headers_get [(''content-encoding'', ''gzip'')] ''Content-Encoding'' = Some ''gzip''"
  by code_simp

lemma site_fromstring: "fromstring site content = site_xml content"
  by (simp add: site_def)

lemma site_fetch:
  "fetch_url site cfg ''http://s/sitemap.xml'' =
     (Some ''index'', [Http_get ''http://s/sitemap.xml'' fetch_headers 30])"
  "fetch_url site cfg ''http://s/a.xml'' =
     (Some ''urlset-a'', [Http_get ''http://s/a.xml'' fetch_headers 30])"
  "fetch_url site cfg ''http://s/b.xml.gz'' =
     (Some ''urlset-b'', [Http_get ''http://s/b.xml.gz'' fetch_headers 30])"
  "fetch_url site cfg ''http://s/b.xml'' =
     (Some ''urlset-b'', [Http_get ''http://s/b.xml'' fetch_headers 30])"
  "fetch_url site cfg ''http://s/gone.xml'' =
     (None, [Http_get ''http://s/gone.xml'' fetch_headers 30,
             Log Error (Failed_to_fetch ''http://s/gone.xml'' (HTTPError 404))])"
  "fetch_url site cfg ''http://s/bad.xml'' =
     (Some ''<<'', [Http_get ''http://s/bad.xml'' fetch_headers 30])"
  "fetch_url site cfg ''http://s/down.xml'' =
     (None, [Http_get ''http://s/down.xml'' fetch_headers 30,
             Log Error (Failed_to_fetch ''http://s/down.xml'' (RequestException ''timed out''))])"
  by (simp_all add: fetch_url_def fetch_try_def site_def cfg_def site_reply_def raise_for_status_def
      headers_get_def endswith_def)

lemma site_parse:
  "parse_sitemap site (Some ''index'') =
     (Tuple [''http://s/a.xml'', ''http://s/b.xml.gz'', ''http://s/gone.xml'', ''http://s/bad.xml'']
        True, [])"
  "parse_sitemap site (Some ''urlset-a'') =
     (Tuple [''http://s/1'', ''http://s/2'', ''http://s/1''] False, [])"
  "parse_sitemap site (Some ''urlset-b'') =
     (Tuple [''http://s/2'', ''http://s/2/'', ''http://s/3''] False, [])"
  "parse_sitemap site (Some ''<<'') = (Tuple [] False, [Log Error (Failed_to_parse ParseError)])"
  by (simp_all add: parse_sitemap_def replace_short xmlns_length site_def site_xml_def entry_def
      findall_def find_child_def del: replace.simps)

lemma site_children:
  "child_sitemaps site cfg ''http://s/sitemap.xml'' =
     [''http://s/a.xml'', ''http://s/b.xml.gz'', ''http://s/gone.xml'', ''http://s/bad.xml'']"
  "child_sitemaps site cfg ''http://s/a.xml'' = []"
  "child_sitemaps site cfg ''http://s/b.xml.gz'' = []"
  "child_sitemaps site cfg ''http://s/b.xml'' = []"
  "child_sitemaps site cfg ''http://s/gone.xml'' = []"
  "child_sitemaps site cfg ''http://s/bad.xml'' = []"
  "child_sitemaps site cfg ''http://s/down.xml'' = []"
  by (simp_all add: child_sitemaps_def site_fetch site_parse truthy_def)

lemma site_pages:
  "page_urls site cfg ''http://s/sitemap.xml'' = []"
  "page_urls site cfg ''http://s/a.xml'' = [''http://s/1'', ''http://s/2'', ''http://s/1'']"
  "page_urls site cfg ''http://s/b.xml.gz'' = [''http://s/2'', ''http://s/2/'', ''http://s/3'']"
  "page_urls site cfg ''http://s/b.xml'' = [''http://s/2'', ''http://s/2/'', ''http://s/3'']"
  "page_urls site cfg ''http://s/gone.xml'' = []"
  "page_urls site cfg ''http://s/bad.xml'' = []"
  "page_urls site cfg ''http://s/down.xml'' = []"
  by (simp_all add: page_urls_def site_fetch site_parse truthy_def)

lemma site_sleep: "time_sleep site (delay cfg) = None"
  by (simp add: site_def cfg_def cpython_sleep_def)

lemma site_loop:
  "\<exists>tr. resolve_loop site cfg [''http://s/sitemap.xml''] [] [] =
     Some (Inr ([''http://s/1'', ''http://s/2'', ''http://s/1'',
                 ''http://s/2'', ''http://s/2/'', ''http://s/3''], tr))"
  by (simp add: resolve_loop_step [OF sleep_accepted [OF site_sleep]] site_children site_pages
      resolve_loop_Nil)

lemma site_resolved: "\<exists>tr. get_urls_from_sitemap site cfg = Some (Inr (site_urls, tr))"
proof -
  from site_loop obtain tr where "resolve_loop site cfg [sitemap_url cfg] [] [] =
     Some (Inr ([''http://s/1'', ''http://s/2'', ''http://s/1'',
                 ''http://s/2'', ''http://s/2/'', ''http://s/3''], tr))"
    by (auto simp: cfg_def)
  then show ?thesis
    by (simp add: get_urls_Inr list_of_set_def site_urls_def site_def)
qed

lemma site_down_fetch:
  "fetch_url site cfg_down ''http://s/down.xml'' =
     (None, [Http_get ''http://s/down.xml'' fetch_headers 30,
             Log Error (Failed_to_fetch ''http://s/down.xml'' (RequestException ''timed out''))])"
  by (simp add: fetch_url_def fetch_try_def site_def cfg_down_def site_reply_def)

lemma site_down_resolved:
  "get_urls_from_sitemap site cfg_down =
     Some (Inr ([], [Log Info (Processing_sitemap ''http://s/down.xml''),
                     Http_get ''http://s/down.xml'' fetch_headers 30,
                     Log Error (Failed_to_fetch ''http://s/down.xml'' (RequestException ''timed out'')),
                     Log Info (Found_unique 0)]))"
proof -
  have "resolve_loop site cfg_down [''http://s/down.xml''] [] [] =
     Some (Inr ([], [Log Info (Processing_sitemap ''http://s/down.xml''),
                     Http_get ''http://s/down.xml'' fetch_headers 30,
                     Log Error (Failed_to_fetch ''http://s/down.xml'' (RequestException ''timed out''))]))"
    by (simp add: resolve_loop_Cons iteration_raises_def child_sitemaps_def page_urls_def
        iteration_events_def site_down_fetch truthy_def resolve_loop_Nil)
  then show ?thesis
    by (simp add: get_urls_from_sitemap_def cfg_down_def list_of_set_def)
qed

section \<open>The claims\<close>



text \<open>
  Claim C2. The list \<^verbatim>\<open>get_urls_from_sitemap\<close> returns has no duplicates, whatever the
  documents repeat; its elements are exactly the strings the loop accumulated, compared
  as they are.
\<close>

theorem resolver_no_duplicates:
  assumes "get_urls_from_sitemap E C = Some (Inr (urls, tr))"
  shows "distinct urls \<and>
    (\<exists>all_page_urls tr'. resolve_loop E C [sitemap_url C] [] [] = Some (Inr (all_page_urls, tr')) \<and>
        set urls = set all_page_urls)"
  using assms by (auto simp: get_urls_Inr set_list_of_set distinct_list_of_set)

theorem resolver_no_duplicates_witness:
  "\<exists>tr. get_urls_from_sitemap site cfg =
       Some (Inr ([''http://s/1'', ''http://s/2'', ''http://s/2/'', ''http://s/3''], tr)) \<and>
     distinct [''http://s/1'', ''http://s/2'', ''http://s/2/'', ''http://s/3''] \<and>
     (\<exists>all_page_urls tr'. resolve_loop site cfg [sitemap_url cfg] [] [] =
         Some (Inr (all_page_urls, tr')) \<and>
       set [''http://s/1'', ''http://s/2'', ''http://s/2/'', ''http://s/3''] = set all_page_urls)"
proof -
  from site_resolved obtain tr where g: "get_urls_from_sitemap site cfg =
      Some (Inr ([''http://s/1'', ''http://s/2'', ''http://s/2/'', ''http://s/3''], tr))"
    by (auto simp: site_urls_def)
  from resolver_no_duplicates [OF g] g show ?thesis
    by blast
qed







end
